theory Spec2Isabelle
  imports Main
begin

section \<open>Geometry value types\<close>

text \<open>
  Modelled from the spec: the headers \<^verbatim>\<open>rectangular.hpp\<close> and \<^verbatim>\<open>size.hpp\<close> that declare
  \<^verbatim>\<open>Size2i\<close> and \<^verbatim>\<open>Rectanglei\<close> are not part of the sources. The spec describes a Size as
  a width and a height, and a Rectangle as an origin (a 2D point) and a Size, with equality on
  sizes, component-wise comparison and subtraction, and construction of a rectangle from an
  origin and a size. The packer reads the fields \<^verbatim>\<open>origin.x\<close>, \<^verbatim>\<open>origin.y\<close>,
  \<^verbatim>\<open>size.width\<close> and \<^verbatim>\<open>size.height\<close>; the point's fields are called \<open>xc\<close> and \<open>yc\<close>
  here and the rectangle's size \<open>size_r\<close>, the source's names being taken in HOL.

  Coordinates are mathematical integers. Under the precondition of insert (requested sizes
  are non-negative) every number the packer computes lies between 0 and a dimension of the
  leaf it splits (lemma \<open>split_bounds_range\<close>), and every leaf lies inside the surface
  (lemma \<open>leaves_in_surface\<close>), so the machine type of the scalar does not overflow on a
  surface it can represent. For a request with a negative component the subtractions and
  additions of the source can leave the range of its \<^verbatim>\<open>int\<close>, and the model says nothing about
  the code there: the properties of calls returning are stated for requests that meet the
  precondition.
\<close>

record Point2i =
  xc :: int
  yc :: int

record Size2i =
  width :: int
  height :: int

record Rectanglei =
  origin :: Point2i
  size_r :: Size2i

text \<open>
  Modelled from the spec: the declaration of \<^verbatim>\<open>Size2i\<close> is not part of the sources, and the
  data model of the spec gives a Size a width and a height that are non-negative scalars; the
  spec states the same as the precondition of insert on the requested size. The record above
  carries any integers, and \<open>nonneg\<close> says that a size is one of the data model.
\<close>

definition nonneg :: "Size2i \<Rightarrow> bool" where
  "nonneg sz = (0 \<le> width sz \<and> 0 \<le> height sz)"

text \<open>
  The unit cells a rectangle covers: the cell \<open>(i, j)\<close> belongs to the rectangle when
  \<open>origin.x \<le> i < origin.x + width\<close> and \<open>origin.y \<le> j < origin.y + height\<close>. Two
  placements that touch along an edge share no cell.
\<close>

definition pts :: "Rectanglei \<Rightarrow> (int \<times> int) set" where
  "pts r = {(i, j). xc (origin r) \<le> i \<and> i < xc (origin r) + width (size_r r)
                  \<and> yc (origin r) \<le> j \<and> j < yc (origin r) + height (size_r r)}"

text \<open>A rectangle of non-negative size lying inside another, edge by edge.\<close>

definition within :: "Rectanglei \<Rightarrow> Rectanglei \<Rightarrow> bool" where
  "within r b =
     (0 \<le> width (size_r r) \<and> 0 \<le> height (size_r r)
      \<and> xc (origin b) \<le> xc (origin r)
      \<and> xc (origin r) + width (size_r r) \<le> xc (origin b) + width (size_r b)
      \<and> yc (origin b) \<le> yc (origin r)
      \<and> yc (origin r) + height (size_r r) \<le> yc (origin b) + height (size_r b))"

definition area :: "Rectanglei \<Rightarrow> int" where
  "area r = width (size_r r) * height (size_r r)"

text \<open>Short forms of the constructors \<^verbatim>\<open>Size2i(w, h)\<close> and \<^verbatim>\<open>Rectanglei({x, y}, Size2i(w, h))\<close>.\<close>

definition mkSize :: "int \<Rightarrow> int \<Rightarrow> Size2i" where
  "mkSize w h = \<lparr>width = w, height = h\<rparr>"

definition mkRect :: "int \<Rightarrow> int \<Rightarrow> int \<Rightarrow> int \<Rightarrow> Rectanglei" where
  "mkRect x y w h = \<lparr>origin = \<lparr>xc = x, yc = y\<rparr>, size_r = \<lparr>width = w, height = h\<rparr>\<rparr>"

section \<open>The node of the packing tree\<close>

text \<open>
  \<^verbatim>\<open>struct Node\<close>: the two owned child pointers (\<open>None\<close> is \<^verbatim>\<open>nullptr\<close>), the bounds and the
  taken flag. The constructor \<^verbatim>\<open>Node(bounds)\<close> leaves both children null and \<open>taken\<close> false.
\<close>

datatype Node =
  Node (childs0: "Node option") (childs1: "Node option") (bounds: Rectanglei) (taken: bool)

definition Node_new :: "Rectanglei \<Rightarrow> Node" where
  "Node_new b = Node None None b False"

text \<open>
  The only way \<^verbatim>\<open>insert\<close> can stop other than by returning, for requests that meet the
  precondition: its \<^verbatim>\<open>assert\<close>.
\<close>

datatype error = AssertionFailed

text \<open>
  The bounds of the two children made when a leaf with bounds \<open>b\<close> is split for a request
  \<open>sz\<close> (the block from "Decide which way to split" to the end of "Split up"):
  first component \<^verbatim>\<open>childs[0]\<close>, second \<^verbatim>\<open>childs[1]\<close>. The arithmetic is that of the integers;
  it is the arithmetic of the source when the request is non-negative and fits the leaf.
\<close>

definition split_bounds :: "Rectanglei \<Rightarrow> Size2i \<Rightarrow> Rectanglei \<times> Rectanglei" where
  "split_bounds b sz =
     (let deltaWidth = width (size_r b) - width sz;
          deltaHeight = height (size_r b) - height sz
      in if deltaWidth > deltaHeight then
           (\<lparr>origin = origin b,
             size_r = \<lparr>width = width (size_r b) - deltaWidth, height = height (size_r b)\<rparr>\<rparr>,
            \<lparr>origin = \<lparr>xc = xc (origin b) + width sz, yc = yc (origin b)\<rparr>,
             size_r = \<lparr>width = deltaWidth, height = height (size_r b)\<rparr>\<rparr>)
         else
           (\<lparr>origin = origin b,
             size_r = \<lparr>width = width (size_r b), height = height (size_r b) - deltaHeight\<rparr>\<rparr>,
            \<lparr>origin = \<lparr>xc = xc (origin b), yc = yc (origin b) + height sz\<rparr>,
             size_r = \<lparr>width = width (size_r b), height = deltaHeight\<rparr>\<rparr>))"

text \<open>
  \<^verbatim>\<open>Node::insert\<close>. The result is the returned pointer (\<open>None\<close> is \<^verbatim>\<open>nullptr\<close>; a
  placement is the bounds of the node pointed to) together with the node after the call.
  It agrees with the source for requests of non-negative width and height, where no
  arithmetic of the source overflows.
\<close>

function Node_insert :: "Node \<Rightarrow> Size2i \<Rightarrow> error + (Rectanglei option \<times> Node)" where
  "Node_insert (Node c0 c1 b tk) sz =
    (case c0 of
       Some n0 \<Rightarrow>
         (case Node_insert n0 sz of
            Inl e \<Rightarrow> Inl e
          | Inr (Some result, n0') \<Rightarrow> Inr (Some result, Node (Some n0') c1 b tk)
          | Inr (None, n0') \<Rightarrow>
              (case c1 of
                 None \<Rightarrow> Inl AssertionFailed
               | Some n1 \<Rightarrow>
                   (case Node_insert n1 sz of
                      Inl e \<Rightarrow> Inl e
                    | Inr (result, n1') \<Rightarrow> Inr (result, Node (Some n0') (Some n1') b tk))))
     | None \<Rightarrow>
         if tk then Inr (None, Node c0 c1 b tk)
         else if width (size_r b) < width sz \<or> height (size_r b) < height sz
           then Inr (None, Node c0 c1 b tk)
         else if size_r b = sz then Inr (Some b, Node c0 c1 b True)
         else
           (case Node_insert (Node_new (fst (split_bounds b sz))) sz of
              Inl e \<Rightarrow> Inl e
            | Inr (result, n0') \<Rightarrow>
                Inr (result, Node (Some n0') (Some (Node_new (snd (split_bounds b sz)))) b tk)))"
  by pat_completeness auto

text \<open>
  Termination: a call on a child is on a smaller tree, and the call on the fresh first child
  of a split is on a leaf that differs from the request in fewer dimensions.
\<close>

definition mismatch :: "Rectanglei \<Rightarrow> Size2i \<Rightarrow> nat" where
  "mismatch b sz = (if width (size_r b) = width sz then 0 else 1)
                 + (if height (size_r b) = height sz then 0 else 1)"

termination Node_insert
proof (relation "measures [\<lambda>(n, sz). size n, \<lambda>(n, sz). mismatch (bounds n) sz]", goal_cases)
  case 1
  show ?case by simp
next
  case (2 c0 c1 b tk sz)
  have "size_r b = sz" if "width (size_r b) = width sz" "height (size_r b) = height sz"
    using that by simp
  with 2 show ?case
    by (cases c1) (auto simp: mismatch_def split_bounds_def Node_new_def Let_def split: if_splits)
next
  case 3
  then show ?case by simp
next
  case 4
  then show ?case by simp
qed

text \<open>
  The depth of the recursion of one call of \<^verbatim>\<open>Node::insert\<close>: the largest number of
  activations of insert that are on the call stack at the same time, the outermost call
  counted. It follows the control flow of \<open>Node_insert\<close>: the second child is entered only
  after the first child returned no placement.
\<close>

function Node_insert_depth :: "Node \<Rightarrow> Size2i \<Rightarrow> nat" where
  "Node_insert_depth (Node c0 c1 b tk) sz =
    (case c0 of
       Some n0 \<Rightarrow>
         (case Node_insert n0 sz of
            Inl e \<Rightarrow> 1 + Node_insert_depth n0 sz
          | Inr (Some result, n0') \<Rightarrow> 1 + Node_insert_depth n0 sz
          | Inr (None, n0') \<Rightarrow>
              (case c1 of
                 None \<Rightarrow> 1 + Node_insert_depth n0 sz
               | Some n1 \<Rightarrow> 1 + max (Node_insert_depth n0 sz) (Node_insert_depth n1 sz)))
     | None \<Rightarrow>
         if tk then 1
         else if width (size_r b) < width sz \<or> height (size_r b) < height sz then 1
         else if size_r b = sz then 1
         else 1 + Node_insert_depth (Node_new (fst (split_bounds b sz))) sz)"
  by pat_completeness auto

termination Node_insert_depth
proof (relation "measures [\<lambda>(n, sz). size n, \<lambda>(n, sz). mismatch (bounds n) sz]", goal_cases)
  case 1
  show ?case by simp
next
  case (2 c0 c1 b tk sz)
  have "size_r b = sz" if "width (size_r b) = width sz" "height (size_r b) = height sz"
    using that by simp
  with 2 show ?case
    by (cases c1) (auto simp: mismatch_def split_bounds_def Node_new_def Let_def split: if_splits)
qed simp_all


section \<open>The packing space\<close>

text \<open>\<^verbatim>\<open>class BinPackingSpace\<close>: the root node, made with the given size at the origin.\<close>

record BinPackingSpace =
  root :: Node

definition BinPackingSpace_new :: "Size2i \<Rightarrow> BinPackingSpace" where
  "BinPackingSpace_new sz = \<lparr>root = Node_new \<lparr>origin = \<lparr>xc = 0, yc = 0\<rparr>, size_r = sz\<rparr>\<rparr>"

definition BinPackingSpace_insert ::
  "BinPackingSpace \<Rightarrow> Size2i \<Rightarrow> error + (Rectanglei option \<times> BinPackingSpace)" where
  "BinPackingSpace_insert sp sz =
     (case Node_insert (root sp) sz of
        Inl e \<Rightarrow> Inl e
      | Inr (result, n') \<Rightarrow> Inr (result, sp\<lparr>root := n'\<rparr>))"

definition getSize :: "BinPackingSpace \<Rightarrow> Size2i" where
  "getSize sp = size_r (bounds (root sp))"

text \<open>
  A caller making a sequence of insert calls on one space: the results in call order and the
  space after the last call. A failed assertion ends the run.
\<close>

fun inserts ::
  "BinPackingSpace \<Rightarrow> Size2i list \<Rightarrow> error + (Rectanglei option list \<times> BinPackingSpace)" where
  "inserts sp [] = Inr ([], sp)"
| "inserts sp (sz # szs) =
     (case BinPackingSpace_insert sp sz of
        Inl e \<Rightarrow> Inl e
      | Inr (result, sp') \<Rightarrow>
          (case inserts sp' szs of
             Inl e \<Rightarrow> Inl e
           | Inr (results, sp'') \<Rightarrow> Inr (result # results, sp'')))"

text \<open>The number of successful calls among the results of a run.\<close>

definition successes :: "Rectanglei option list \<Rightarrow> nat" where
  "successes results = length (filter (\<lambda>r. r \<noteq> None) results)"

section \<open>Notions the properties are stated with\<close>

text \<open>
  Invariant 1 of the data model: a node has both children or none, at every level. The
  assertion of insert holds on every such node.
\<close>

fun both_or_none :: "Node \<Rightarrow> bool" where
  "both_or_none (Node c0 c1 b tk) =
     (case c0 of
        None \<Rightarrow> c1 = None
      | Some n0 \<Rightarrow> (case c1 of None \<Rightarrow> False | Some n1 \<Rightarrow> both_or_none n0 \<and> both_or_none n1))"

text \<open>
  The failure cases in the words of the spec: a leaf that is already taken, a leaf whose
  bounds are smaller than the requested size in either dimension, or an internal node both
  of whose children have no room.
\<close>

fun no_room :: "Node \<Rightarrow> Size2i \<Rightarrow> bool" where
  "no_room (Node c0 c1 b tk) sz =
     (case c0 of
        None \<Rightarrow> tk \<or> width (size_r b) < width sz \<or> height (size_r b) < height sz
      | Some n0 \<Rightarrow> no_room n0 sz \<and> (case c1 of None \<Rightarrow> True | Some n1 \<Rightarrow> no_room n1 sz))"

text \<open>The leaves of a tree in the order insert visits them, each with its taken flag.\<close>

fun leaves :: "Node \<Rightarrow> (Rectanglei \<times> bool) list" where
  "leaves (Node c0 c1 b tk) =
     (case c0 of
        None \<Rightarrow> [(b, tk)]
      | Some n0 \<Rightarrow> leaves n0 @ (case c1 of None \<Rightarrow> [] | Some n1 \<Rightarrow> leaves n1))"

definition no_fit :: "Rectanglei \<times> bool \<Rightarrow> Size2i \<Rightarrow> bool" where
  "no_fit l sz =
     (snd l \<or> width (size_r (fst l)) < width sz \<or> height (size_r (fst l)) < height sz)"

fun count_nodes :: "Node \<Rightarrow> nat" where
  "count_nodes (Node c0 c1 b tk) =
     1 + (case c0 of None \<Rightarrow> 0 | Some n0 \<Rightarrow> count_nodes n0)
       + (case c1 of None \<Rightarrow> 0 | Some n1 \<Rightarrow> count_nodes n1)"

text \<open>The number of levels of a tree; a single leaf has one.\<close>

fun levels :: "Node \<Rightarrow> nat" where
  "levels (Node c0 c1 b tk) =
     1 + max (case c0 of None \<Rightarrow> 0 | Some n0 \<Rightarrow> levels n0)
             (case c1 of None \<Rightarrow> 0 | Some n1 \<Rightarrow> levels n1)"

text \<open>
  Two rectangles \<open>b0\<close> and \<open>b1\<close> that cut \<open>b\<close> in two by one vertical or one horizontal
  line, \<open>b0\<close> at the origin of \<open>b\<close>.
\<close>

definition tiles :: "Rectanglei \<Rightarrow> Rectanglei \<Rightarrow> Rectanglei \<Rightarrow> bool" where
  "tiles b b0 b1 =
     (origin b0 = origin b
      \<and> ((0 \<le> width (size_r b0) \<and> width (size_r b0) \<le> width (size_r b)
          \<and> 0 \<le> height (size_r b) \<and> height (size_r b0) = height (size_r b)
          \<and> b1 = \<lparr>origin = \<lparr>xc = xc (origin b) + width (size_r b0), yc = yc (origin b)\<rparr>,
                  size_r = \<lparr>width = width (size_r b) - width (size_r b0),
                            height = height (size_r b)\<rparr>\<rparr>)
        \<or> (0 \<le> height (size_r b0) \<and> height (size_r b0) \<le> height (size_r b)
          \<and> 0 \<le> width (size_r b) \<and> width (size_r b0) = width (size_r b)
          \<and> b1 = \<lparr>origin = \<lparr>xc = xc (origin b), yc = yc (origin b) + height (size_r b0)\<rparr>,
                  size_r = \<lparr>width = width (size_r b),
                            height = height (size_r b) - height (size_r b0)\<rparr>\<rparr>)))"

text \<open>
  The invariant of a tree grown by requests of non-negative size: the children of every
  internal node cut its bounds in two, and every taken leaf has a non-negative size.
\<close>

fun partitioned :: "Node \<Rightarrow> bool" where
  "partitioned (Node c0 c1 b tk) =
     (case c0 of
        None \<Rightarrow> c1 = None \<and> (tk \<longrightarrow> nonneg (size_r b))
      | Some n0 \<Rightarrow>
          (case c1 of
             None \<Rightarrow> False
           | Some n1 \<Rightarrow> tiles b (bounds n0) (bounds n1) \<and> partitioned n0 \<and> partitioned n1))"

text \<open>The bounds of the taken leaves: the placements handed out so far.\<close>

fun taken_rects :: "Node \<Rightarrow> Rectanglei list" where
  "taken_rects (Node c0 c1 b tk) =
     (case c0 of
        None \<Rightarrow> if tk then [b] else []
      | Some n0 \<Rightarrow> taken_rects n0 @ (case c1 of None \<Rightarrow> [] | Some n1 \<Rightarrow> taken_rects n1))"

section \<open>Rules for insert\<close>

lemma Node_insert_leaf:
  "Node_insert (Node None c1 b tk) sz =
     (if tk then Inr (None, Node None c1 b tk)
      else if width (size_r b) < width sz \<or> height (size_r b) < height sz
        then Inr (None, Node None c1 b tk)
      else if size_r b = sz then Inr (Some b, Node None c1 b True)
      else
        (case Node_insert (Node_new (fst (split_bounds b sz))) sz of
           Inl e \<Rightarrow> Inl e
         | Inr (result, n0') \<Rightarrow>
             Inr (result, Node (Some n0') (Some (Node_new (snd (split_bounds b sz)))) b tk)))"
  by simp

lemma Node_insert_internal:
  "Node_insert (Node (Some n0) c1 b tk) sz =
     (case Node_insert n0 sz of
        Inl e \<Rightarrow> Inl e
      | Inr (Some result, n0') \<Rightarrow> Inr (Some result, Node (Some n0') c1 b tk)
      | Inr (None, n0') \<Rightarrow>
          (case c1 of
             None \<Rightarrow> Inl AssertionFailed
           | Some n1 \<Rightarrow>
               (case Node_insert n1 sz of
                  Inl e \<Rightarrow> Inl e
                | Inr (result, n1') \<Rightarrow> Inr (result, Node (Some n0') (Some n1') b tk))))"
  by simp

lemma Node_insert_depth_leaf:
  "Node_insert_depth (Node None c1 b tk) sz =
     (if tk then 1
      else if width (size_r b) < width sz \<or> height (size_r b) < height sz then 1
      else if size_r b = sz then 1
      else 1 + Node_insert_depth (Node_new (fst (split_bounds b sz))) sz)"
  by simp

lemma Node_insert_depth_internal:
  "Node_insert_depth (Node (Some n0) c1 b tk) sz =
     (case Node_insert n0 sz of
        Inl e \<Rightarrow> 1 + Node_insert_depth n0 sz
      | Inr (Some result, n0') \<Rightarrow> 1 + Node_insert_depth n0 sz
      | Inr (None, n0') \<Rightarrow>
          (case c1 of
             None \<Rightarrow> 1 + Node_insert_depth n0 sz
           | Some n1 \<Rightarrow> 1 + max (Node_insert_depth n0 sz) (Node_insert_depth n1 sz)))"
  by simp

text \<open>Induction along the calls of insert, one case for a leaf and one for an internal node.\<close>

lemma Node_insert_induct [case_names leaf internal]:
  assumes "\<And>c1 b tk sz.
      (\<not> tk \<Longrightarrow> \<not> (width (size_r b) < width sz \<or> height (size_r b) < height sz)
        \<Longrightarrow> size_r b \<noteq> sz \<Longrightarrow> P (Node_new (fst (split_bounds b sz))) sz)
      \<Longrightarrow> P (Node None c1 b tk) sz"
    and "\<And>n0 c1 b tk sz.
      P n0 sz \<Longrightarrow> (\<And>n1 n0'. c1 = Some n1 \<Longrightarrow> Node_insert n0 sz = Inr (None, n0') \<Longrightarrow> P n1 sz)
      \<Longrightarrow> P (Node (Some n0) c1 b tk) sz"
  shows "P n sz"
proof (induction n sz rule: Node_insert.induct)
  case (1 c0 c1 b tk sz)
  show ?case
  proof (cases c0)
    case None
    show ?thesis unfolding None
      by (rule assms(1)) (rule 1(1) [OF None])
  next
    case (Some n0)
    show ?thesis unfolding Some
    proof (rule assms(2))
      show "P n0 sz" by (rule 1(2) [OF Some])
    next
      fix n1 n0' assume "c1 = Some n1" "Node_insert n0 sz = Inr (None, n0')"
      then show "P n1 sz" using 1(3) [OF Some, of "(None, n0')" None n0' n1] by simp
    qed
  qed
qed

declare Node_insert.simps [simp del]
declare Node_insert_depth.simps [simp del]

lemma Node_insert_leaf_cases [consumes 1, case_names taken small exact split]:
  assumes "Node_insert (Node None c1 b tk) sz = Inr (res, n')"
  obtains
    (taken) "tk" "res = None" "n' = Node None c1 b tk"
  | (small) "\<not> tk" "width (size_r b) < width sz \<or> height (size_r b) < height sz"
      "res = None" "n' = Node None c1 b tk"
  | (exact) "\<not> tk" "\<not> (width (size_r b) < width sz \<or> height (size_r b) < height sz)"
      "size_r b = sz" "res = Some b" "n' = Node None c1 b True"
  | (split) n0' where "\<not> tk" "\<not> (width (size_r b) < width sz \<or> height (size_r b) < height sz)"
      "size_r b \<noteq> sz"
      "Node_insert (Node_new (fst (split_bounds b sz))) sz = Inr (res, n0')"
      "n' = Node (Some n0') (Some (Node_new (snd (split_bounds b sz)))) b tk"
proof (cases "tk \<or> width (size_r b) < width sz \<or> height (size_r b) < height sz \<or> size_r b = sz")
  case True
  with assms taken small exact show ?thesis
    unfolding Node_insert_leaf by (simp split: if_splits)
next
  case False
  then have eq: "(case Node_insert (Node_new (fst (split_bounds b sz))) sz of
           Inl e \<Rightarrow> Inl e
         | Inr (result, n0') \<Rightarrow>
             Inr (result, Node (Some n0') (Some (Node_new (snd (split_bounds b sz)))) b tk))
        = Inr (res, n')"
    using assms unfolding Node_insert_leaf by simp
  show ?thesis
  proof (cases "Node_insert (Node_new (fst (split_bounds b sz))) sz")
    case (Inl e)
    with eq show ?thesis by simp
  next
    case (Inr p)
    obtain r m where p: "p = (r, m)" by (cases p)
    with Inr eq have "res = r" "n' = Node (Some m) (Some (Node_new (snd (split_bounds b sz)))) b tk"
      by simp_all
    with Inr p False split show ?thesis by simp
  qed
qed

lemma Node_insert_internal_cases [consumes 1, case_names first second]:
  assumes "Node_insert (Node (Some n0) c1 b tk) sz = Inr (res, n')"
  obtains
    (first) r n0' where "Node_insert n0 sz = Inr (Some r, n0')" "res = Some r"
      "n' = Node (Some n0') c1 b tk"
  | (second) n0' n1 n1' where "Node_insert n0 sz = Inr (None, n0')" "c1 = Some n1"
      "Node_insert n1 sz = Inr (res, n1')" "n' = Node (Some n0') (Some n1') b tk"
proof (cases "Node_insert n0 sz")
  case (Inl e)
  with assms show ?thesis unfolding Node_insert_internal by simp
next
  case (Inr p)
  obtain r0 n0' where p: "p = (r0, n0')" by (cases p)
  show ?thesis
  proof (cases r0)
    case (Some r)
    with Inr p assms first show ?thesis unfolding Node_insert_internal by auto
  next
    case None
    note r0 = None
    show ?thesis
    proof (cases c1)
      case None
      with Inr p r0 assms show ?thesis unfolding Node_insert_internal by simp
    next
      case (Some n1)
      show ?thesis
      proof (cases "Node_insert n1 sz")
        case (Inl e)
        with Inr p r0 Some assms show ?thesis unfolding Node_insert_internal by simp
      next
        case (Inr q)
        obtain r1 n1' where q: "q = (r1, n1')" by (cases q)
        from Inr q \<open>Node_insert n0 sz = Inr p\<close> p r0 Some assms
        have "res = r1" "n' = Node (Some n0') (Some n1') b tk"
          unfolding Node_insert_internal by simp_all
        with Inr q \<open>Node_insert n0 sz = Inr p\<close> p r0 Some second show ?thesis by simp
      qed
    qed
  qed
qed

lemma inserts_Cons_cases [consumes 1]:
  assumes "inserts sp (sz # szs) = Inr (results, sp'')"
  obtains result sp' rest where "BinPackingSpace_insert sp sz = Inr (result, sp')"
    "inserts sp' szs = Inr (rest, sp'')" "results = result # rest"
  using assms by (auto split: sum.splits prod.splits)

lemma space_insert_cases [consumes 1]:
  assumes "BinPackingSpace_insert sp sz = Inr (result, sp')"
  obtains n' where "Node_insert (root sp) sz = Inr (result, n')" "sp' = sp\<lparr>root := n'\<rparr>"
  using assms by (auto simp: BinPackingSpace_insert_def split: sum.splits prod.splits)

lemma insert_bounds:
  assumes "Node_insert n sz = Inr (res, n')"
  shows "bounds n' = bounds n"
proof (cases n)
  case (Node c0 c1 b tk)
  show ?thesis
  proof (cases c0)
    case None
    from assms [unfolded Node None] show ?thesis unfolding Node
      by (cases rule: Node_insert_leaf_cases) simp_all
  next
    case (Some n0)
    from assms [unfolded Node Some] show ?thesis unfolding Node
      by (cases rule: Node_insert_internal_cases) simp_all
  qed
qed

lemmas eval_simps =
  BinPackingSpace_new_def BinPackingSpace_insert_def Node_new_def Node_insert_leaf
  Node_insert_internal Node_insert_depth_leaf Node_insert_depth_internal split_bounds_def
  mkSize_def mkRect_def

section \<open>Properties of a split\<close>

lemma Size2i_eqI: "width a = width b \<Longrightarrow> height a = height b \<Longrightarrow> (a :: Size2i) = b"
  by simp

lemma split_bounds_fst_fits:
  assumes "\<not> (width (size_r b) < width sz \<or> height (size_r b) < height sz)"
  shows "\<not> (width (size_r (fst (split_bounds b sz))) < width sz
            \<or> height (size_r (fst (split_bounds b sz))) < height sz)"
  using assms by (simp add: split_bounds_def Let_def)

lemma split_bounds_fst_mismatch:
  assumes "\<not> (width (size_r b) < width sz \<or> height (size_r b) < height sz)"
    and "size_r b \<noteq> sz"
  shows "mismatch (fst (split_bounds b sz)) sz < mismatch b sz"
proof -
  have "width (size_r b) \<noteq> width sz \<or> height (size_r b) \<noteq> height sz"
    using assms(2) Size2i_eqI by blast
  with assms(1) show ?thesis
    by (auto simp: mismatch_def split_bounds_def Let_def)
qed

lemma mismatch_le: "mismatch b sz \<le> 2"
  by (simp add: mismatch_def)

text \<open>
  Under the precondition every intermediate number of a split is between 0 and the dimension
  of the leaf it is taken from: no subtraction or addition leaves the range of the leaf.
\<close>

lemma split_bounds_range:
  assumes "nonneg sz"
    and "\<not> (width (size_r b) < width sz \<or> height (size_r b) < height sz)"
  shows "0 \<le> width (size_r b) - width sz \<and> width (size_r b) - width sz \<le> width (size_r b)
       \<and> 0 \<le> height (size_r b) - height sz \<and> height (size_r b) - height sz \<le> height (size_r b)
       \<and> width (size_r b) - (width (size_r b) - width sz) = width sz
       \<and> height (size_r b) - (height (size_r b) - height sz) = height sz
       \<and> xc (origin b) + width sz \<le> xc (origin b) + width (size_r b)
       \<and> yc (origin b) + height sz \<le> yc (origin b) + height (size_r b)"
  using assms by (simp add: nonneg_def)

lemma within_pts: "within r b \<Longrightarrow> pts r \<subseteq> pts b"
  by (auto simp: within_def pts_def)

lemma within_trans: "within r b \<Longrightarrow> within b c \<Longrightarrow> within r c"
  by (auto simp: within_def)

lemma within_refl: "nonneg (size_r b) \<Longrightarrow> within b b"
  by (simp add: within_def nonneg_def)

lemma tiles_within: "tiles b b0 b1 \<Longrightarrow> within b0 b \<and> within b1 b"
  by (auto simp: tiles_def within_def)

lemma tiles_disjoint: "tiles b b0 b1 \<Longrightarrow> pts b0 \<inter> pts b1 = {}"
  by (auto simp: tiles_def pts_def)

lemma tiles_cover: "tiles b b0 b1 \<Longrightarrow> pts b0 \<union> pts b1 = pts b"
  by (auto simp: tiles_def pts_def)

lemma tiles_size_le:
  "tiles b b0 b1 \<Longrightarrow>
     width (size_r b0) \<le> width (size_r b) \<and> height (size_r b0) \<le> height (size_r b)
   \<and> width (size_r b1) \<le> width (size_r b) \<and> height (size_r b1) \<le> height (size_r b)"
  by (auto simp: tiles_def)

lemma split_tiles:
  assumes "nonneg sz"
    and "\<not> (width (size_r b) < width sz \<or> height (size_r b) < height sz)"
  shows "tiles b (fst (split_bounds b sz)) (snd (split_bounds b sz))"
  using assms by (simp add: tiles_def split_bounds_def nonneg_def Let_def)

lemma both_or_none_new [simp]: "both_or_none (Node_new b)"
  by (simp add: Node_new_def)

lemma partitioned_new [simp]: "partitioned (Node_new b)"
  by (simp add: Node_new_def)

lemma taken_rects_new [simp]: "taken_rects (Node_new b) = []"
  by (simp add: Node_new_def)

lemma bounds_new [simp]: "bounds (Node_new b) = b"
  by (simp add: Node_new_def)

text \<open>
  C3. When insert splits a free leaf for a request of non-negative size that fits the leaf
  without matching it, the leaf becomes an internal node with two children. If the leftover
  width is strictly greater than the leftover height, child 0 has the origin of the leaf,
  the requested width and the full height, and child 1 is offset by the requested width and
  has the remaining width and the full height; otherwise (ties included) child 0 has the full
  width and the requested height, and child 1 is offset by the requested height and has the
  remaining height. In both cases the cells of the two children are disjoint and together are
  the cells of the leaf.
\<close>

theorem split_geometry:
  assumes "nonneg sz"
    and "\<not> (width (size_r b) < width sz \<or> height (size_r b) < height sz)"
    and "size_r b \<noteq> sz"
  shows "\<exists>res c0 c1.
           Node_insert (Node_new b) sz = Inr (res, Node (Some c0) (Some c1) b False)
         \<and> (if width (size_r b) - width sz > height (size_r b) - height sz
            then bounds c0 = \<lparr>origin = origin b,
                              size_r = \<lparr>width = width sz, height = height (size_r b)\<rparr>\<rparr>
               \<and> bounds c1 = \<lparr>origin = \<lparr>xc = xc (origin b) + width sz, yc = yc (origin b)\<rparr>,
                              size_r = \<lparr>width = width (size_r b) - width sz,
                                        height = height (size_r b)\<rparr>\<rparr>
            else bounds c0 = \<lparr>origin = origin b,
                              size_r = \<lparr>width = width (size_r b), height = height sz\<rparr>\<rparr>
               \<and> bounds c1 = \<lparr>origin = \<lparr>xc = xc (origin b), yc = yc (origin b) + height sz\<rparr>,
                              size_r = \<lparr>width = width (size_r b),
                                        height = height (size_r b) - height sz\<rparr>\<rparr>)
         \<and> pts (bounds c0) \<union> pts (bounds c1) = pts b
         \<and> pts (bounds c0) \<inter> pts (bounds c1) = {}"
proof -
  let ?b0 = "fst (split_bounds b sz)" and ?b1 = "snd (split_bounds b sz)"
  have "\<exists>p. Node_insert (Node_new b) sz = Inr p"
  proof (cases "Node_insert (Node_new ?b0) sz")
    case (Inl e)
    have "\<exists>r m. Node_insert (Node_new ?b0) sz = Inr (Some r, m)"
    proof (cases "size_r ?b0 = sz")
      case True
      then show ?thesis using split_bounds_fst_fits [OF assms(2)]
        by (simp add: Node_new_def Node_insert_leaf)
    next
      case False
      have m: "mismatch ?b0 sz < mismatch b sz" using assms(2,3) by (rule split_bounds_fst_mismatch)
      have f1: "\<not> (width (size_r ?b0) < width sz \<or> height (size_r ?b0) < height sz)"
        using assms(2) by (rule split_bounds_fst_fits)
      have "mismatch (fst (split_bounds ?b0 sz)) sz < mismatch ?b0 sz"
        using f1 False by (rule split_bounds_fst_mismatch)
      with m mismatch_le [of b sz] have "mismatch (fst (split_bounds ?b0 sz)) sz = 0" by simp
      then have "size_r (fst (split_bounds ?b0 sz)) = sz"
        by (intro Size2i_eqI) (simp_all add: mismatch_def split: if_splits)
      moreover have "\<not> (width (size_r (fst (split_bounds ?b0 sz))) < width sz
                       \<or> height (size_r (fst (split_bounds ?b0 sz))) < height sz)"
        using f1 by (rule split_bounds_fst_fits)
      ultimately show ?thesis using False f1
        by (simp add: Node_new_def Node_insert_leaf)
    qed
    with Inl show ?thesis by simp
  next
    case (Inr p)
    then show ?thesis using assms(2,3) by (simp add: Node_new_def Node_insert_leaf split: prod.splits)
  qed
  then obtain res n' where r: "Node_insert (Node None None b False) sz = Inr (res, n')"
    by (auto simp: Node_new_def)
  from r obtain n0' where n0': "Node_insert (Node_new ?b0) sz = Inr (res, n0')"
    and n': "n' = Node (Some n0') (Some (Node_new ?b1)) b False"
    using assms(2,3) by (cases rule: Node_insert_leaf_cases) simp_all
  have b0: "bounds n0' = ?b0" using insert_bounds [OF n0'] by simp
  have t: "tiles b ?b0 ?b1" using assms(1,2) by (rule split_tiles)
  have shape: "if width (size_r b) - width sz > height (size_r b) - height sz
            then ?b0 = \<lparr>origin = origin b,
                              size_r = \<lparr>width = width sz, height = height (size_r b)\<rparr>\<rparr>
               \<and> ?b1 = \<lparr>origin = \<lparr>xc = xc (origin b) + width sz, yc = yc (origin b)\<rparr>,
                              size_r = \<lparr>width = width (size_r b) - width sz,
                                        height = height (size_r b)\<rparr>\<rparr>
            else ?b0 = \<lparr>origin = origin b,
                              size_r = \<lparr>width = width (size_r b), height = height sz\<rparr>\<rparr>
               \<and> ?b1 = \<lparr>origin = \<lparr>xc = xc (origin b), yc = yc (origin b) + height sz\<rparr>,
                              size_r = \<lparr>width = width (size_r b),
                                        height = height (size_r b) - height sz\<rparr>\<rparr>"
    by (simp add: split_bounds_def Let_def)
  have run: "Node_insert (Node_new b) sz = Inr (res, Node (Some n0') (Some (Node_new ?b1)) b False)"
    using r n' by (simp add: Node_new_def)
  have cover: "pts (bounds n0') \<union> pts (bounds (Node_new ?b1)) = pts b"
    using tiles_cover [OF t] b0 by simp
  have disj: "pts (bounds n0') \<inter> pts (bounds (Node_new ?b1)) = {}"
    using tiles_disjoint [OF t] b0 by simp
  have shape': "if width (size_r b) - width sz > height (size_r b) - height sz
            then bounds n0' = \<lparr>origin = origin b,
                              size_r = \<lparr>width = width sz, height = height (size_r b)\<rparr>\<rparr>
               \<and> bounds (Node_new ?b1)
                   = \<lparr>origin = \<lparr>xc = xc (origin b) + width sz, yc = yc (origin b)\<rparr>,
                              size_r = \<lparr>width = width (size_r b) - width sz,
                                        height = height (size_r b)\<rparr>\<rparr>
            else bounds n0' = \<lparr>origin = origin b,
                              size_r = \<lparr>width = width (size_r b), height = height sz\<rparr>\<rparr>
               \<and> bounds (Node_new ?b1)
                   = \<lparr>origin = \<lparr>xc = xc (origin b), yc = yc (origin b) + height sz\<rparr>,
                              size_r = \<lparr>width = width (size_r b),
                                        height = height (size_r b) - height sz\<rparr>\<rparr>"
    unfolding b0 bounds_new by (rule shape)
  from run shape' cover disj show ?thesis by blast
qed

theorem split_geometry_witness:
  "nonneg (mkSize 4 3)
   \<and> (\<exists>res c0 c1. Node_insert (Node_new (mkRect 0 0 10 10)) (mkSize 4 3)
                      = Inr (res, Node (Some c0) (Some c1) (mkRect 0 0 10 10) False)
         \<and> bounds c0 = mkRect 0 0 10 3 \<and> bounds c1 = mkRect 0 3 10 7
         \<and> pts (bounds c0) \<union> pts (bounds c1) = pts (mkRect 0 0 10 10)
         \<and> pts (bounds c0) \<inter> pts (bounds c1) = {})"
  using split_geometry [of "mkSize 4 3" "mkRect 0 0 10 10"]
  by (simp add: nonneg_def mkSize_def mkRect_def)

section \<open>A free leaf that is large enough takes the request\<close>

lemma leaf_insert_succeeds:
  "\<not> (width (size_r b) < width sz \<or> height (size_r b) < height sz)
   \<Longrightarrow> \<exists>r n'. Node_insert (Node None c1 b False) sz = Inr (Some r, n')"
proof (induction "mismatch b sz" arbitrary: b c1 rule: less_induct)
  case less
  show ?case
  proof (cases "size_r b = sz")
    case True
    with less.prems show ?thesis by (simp add: Node_insert_leaf)
  next
    case False
    have "mismatch (fst (split_bounds b sz)) sz < mismatch b sz"
      using less.prems False by (rule split_bounds_fst_mismatch)
    moreover have "\<not> (width (size_r (fst (split_bounds b sz))) < width sz
                     \<or> height (size_r (fst (split_bounds b sz))) < height sz)"
      using less.prems by (rule split_bounds_fst_fits)
    ultimately obtain r n' where
      "Node_insert (Node None None (fst (split_bounds b sz)) False) sz = Inr (Some r, n')"
      using less.hyps by blast
    with less.prems False show ?thesis by (simp add: Node_insert_leaf Node_new_def)
  qed
qed

text \<open>
  C6. Let the request meet the precondition of insert (non-negative width and height). When
  a free leaf is split for a request that fits it without matching it, the first child is at
  least as wide and as high as the request, the insert into that fresh child returns a
  placement, and so does the insert on the leaf itself: an insert on a free leaf whose bounds
  are at least the requested size in both dimensions returns a placement.
\<close>

theorem free_leaf_insert_succeeds:
  assumes "nonneg sz"
    and "\<not> (width (size_r b) < width sz \<or> height (size_r b) < height sz)"
  shows "(size_r b \<noteq> sz \<longrightarrow>
            width sz \<le> width (size_r (fst (split_bounds b sz)))
          \<and> height sz \<le> height (size_r (fst (split_bounds b sz)))
          \<and> (\<exists>r n'. Node_insert (Node_new (fst (split_bounds b sz))) sz = Inr (Some r, n')))
       \<and> (\<exists>r n'. Node_insert (Node_new b) sz = Inr (Some r, n'))"
proof -
  have fit0: "\<not> (width (size_r (fst (split_bounds b sz))) < width sz
                \<or> height (size_r (fst (split_bounds b sz))) < height sz)"
    using assms(2) by (rule split_bounds_fst_fits)
  have "\<exists>r n'. Node_insert (Node_new (fst (split_bounds b sz))) sz = Inr (Some r, n')"
    unfolding Node_new_def using fit0 by (rule leaf_insert_succeeds)
  moreover have "\<exists>r n'. Node_insert (Node_new b) sz = Inr (Some r, n')"
    unfolding Node_new_def using assms(2) by (rule leaf_insert_succeeds)
  ultimately show ?thesis using fit0 by auto
qed

theorem free_leaf_insert_succeeds_witness:
  "nonneg (mkSize 4 3)
   \<and> (\<exists>r n'. Node_insert (Node_new (mkRect 0 0 10 10)) (mkSize 4 3) = Inr (Some r, n'))
   \<and> mkSize 4 3 \<noteq> size_r (mkRect 0 0 10 10)
   \<and> width (mkSize 4 3) \<le> width (size_r (fst (split_bounds (mkRect 0 0 10 10) (mkSize 4 3))))
   \<and> (\<exists>r n'. Node_insert (Node_new (fst (split_bounds (mkRect 0 0 10 10) (mkSize 4 3))))
                 (mkSize 4 3) = Inr (Some r, n'))"
  using free_leaf_insert_succeeds [of "mkSize 4 3" "mkRect 0 0 10 10"]
  by (simp add: nonneg_def mkSize_def mkRect_def)

section \<open>What a call returns and what it leaves behind\<close>

text \<open>
  C10. Whenever an insert on a space returns a placement, the size of the returned rectangle
  is the requested size. This holds for every state of the space and every request, so in
  particular for requests of non-negative width and height.
\<close>

theorem placement_size:
  assumes "BinPackingSpace_insert sp sz = Inr (Some r, sp')"
  shows "size_r r = sz"
proof -
  have "Node_insert n sz = Inr (Some r, n') \<Longrightarrow> size_r r = sz" for n n'
  proof (induction n sz arbitrary: r n' rule: Node_insert_induct)
    case (leaf c1 b tk sz)
    from leaf(2) show ?case
    proof (cases rule: Node_insert_leaf_cases)
      case (split n0')
      then show ?thesis using leaf(1) by blast
    qed simp_all
  next
    case (internal n0 c1 b tk sz)
    from internal(3) show ?case
    proof (cases rule: Node_insert_internal_cases)
      case (first r' n0')
      then show ?thesis using internal(1) by simp
    next
      case (second n0' n1 n1')
      then show ?thesis using internal(2) by blast
    qed
  qed
  moreover from assms obtain n' where "Node_insert (root sp) sz = Inr (Some r, n')"
    by (rule space_insert_cases)
  ultimately show ?thesis by blast
qed

theorem placement_size_witness:
  "(\<exists>sp'. BinPackingSpace_insert (BinPackingSpace_new (mkSize 10 10)) (mkSize 4 3)
            = Inr (Some (mkRect 0 0 4 3), sp'))
   \<and> size_r (mkRect 0 0 4 3) = mkSize 4 3"
proof -
  have run: "BinPackingSpace_insert (BinPackingSpace_new (mkSize 10 10)) (mkSize 4 3)
     = Inr (Some (mkRect 0 0 4 3),
            \<lparr>root = Node (Some (Node (Some (Node None None (mkRect 0 0 4 3) True))
                                     (Some (Node None None (mkRect 4 0 6 3) False))
                                     (mkRect 0 0 10 3) False))
                          (Some (Node None None (mkRect 0 3 10 7) False))
                          (mkRect 0 0 10 10) False\<rparr>)"
    by (simp add: eval_simps)
  from placement_size [OF run] run show ?thesis by blast
qed

lemma fail_unchanged:
  "Node_insert n sz = Inr (None, n') \<Longrightarrow> n' = n"
proof (induction n sz arbitrary: n' rule: Node_insert_induct)
  case (leaf c1 b tk sz)
  from leaf(2) show ?case
  proof (cases rule: Node_insert_leaf_cases)
    case (split n0')
    moreover obtain r m where "Node_insert (Node_new (fst (split_bounds b sz))) sz = Inr (Some r, m)"
      using leaf_insert_succeeds [OF split_bounds_fst_fits [OF split(2)]]
      unfolding Node_new_def by blast
    ultimately show ?thesis by simp
  qed simp_all
next
  case (internal n0 c1 b tk sz)
  from internal(3) show ?case
  proof (cases rule: Node_insert_internal_cases)
    case (first r' n0')
    then show ?thesis by simp
  next
    case (second n0' n1 n1')
    then show ?thesis using internal(1) [of n0'] internal(2) [of n1 n0' n1'] by simp
  qed
qed

lemma insert_total:
  "both_or_none n \<Longrightarrow> \<exists>res n'. Node_insert n sz = Inr (res, n') \<and> both_or_none n'"
proof (induction n sz rule: Node_insert_induct)
  case (leaf c1 b tk sz)
  then have c1: "c1 = None" by simp
  show ?case
  proof (cases "tk \<or> width (size_r b) < width sz \<or> height (size_r b) < height sz \<or> size_r b = sz")
    case True
    then show ?thesis by (auto simp: Node_insert_leaf c1)
  next
    case False
    with leaf(1) obtain res n0' where
      "Node_insert (Node_new (fst (split_bounds b sz))) sz = Inr (res, n0')" "both_or_none n0'"
      by auto
    with False show ?thesis by (simp add: Node_insert_leaf)
  qed
next
  case (internal n0 c1 b tk sz)
  from internal(3) obtain n1 where c1: "c1 = Some n1" and b0: "both_or_none n0" and b1: "both_or_none n1"
    by (auto split: option.splits)
  from internal(1) [OF b0] obtain res0 n0' where r0: "Node_insert n0 sz = Inr (res0, n0')"
    and b0': "both_or_none n0'" by blast
  show ?case
  proof (cases res0)
    case (Some r)
    with r0 b0' b1 c1 show ?thesis by (simp add: Node_insert_internal)
  next
    case None
    with internal(2) [OF c1, of n0'] r0 b1 obtain res1 n1' where
      "Node_insert n1 sz = Inr (res1, n1')" "both_or_none n1'" by blast
    with None r0 b0' c1 show ?thesis by (simp add: Node_insert_internal)
  qed
qed

lemma insert_fails_iff:
  "both_or_none n \<Longrightarrow> Node_insert n sz = Inr (res, n') \<Longrightarrow> (res = None) = no_room n sz"
proof (induction n sz arbitrary: res n' rule: Node_insert_induct)
  case (leaf c1 b tk sz)
  from leaf(3) show ?case
  proof (cases rule: Node_insert_leaf_cases)
    case (split n0')
    moreover obtain r m where "Node_insert (Node_new (fst (split_bounds b sz))) sz = Inr (Some r, m)"
      using leaf_insert_succeeds [OF split_bounds_fst_fits [OF split(2)]]
      unfolding Node_new_def by blast
    ultimately show ?thesis by auto
  qed auto
next
  case (internal n0 c1 b tk sz)
  from internal(3) obtain m1 where c1: "c1 = Some m1" and b0: "both_or_none n0" and b1: "both_or_none m1"
    by (auto split: option.splits)
  from internal(4) show ?case
  proof (cases rule: Node_insert_internal_cases)
    case (first r n0')
    then show ?thesis using internal(1) [OF b0, of "Some r" n0'] by simp
  next
    case (second n0' n1 n1')
    then show ?thesis
      using internal(1) [OF b0, of None n0'] internal(2) [of n1 n0' res n1'] c1 b1 by simp
  qed
qed

lemma inserts_total:
  "both_or_none (root sp) \<Longrightarrow>
   \<exists>results sp'. inserts sp szs = Inr (results, sp') \<and> both_or_none (root sp')"
proof (induction szs arbitrary: sp)
  case Nil
  then show ?case by simp
next
  case (Cons sz szs)
  from insert_total [OF Cons.prems, of sz] obtain res n' where
    n': "Node_insert (root sp) sz = Inr (res, n')" "both_or_none n'" by blast
  then have "BinPackingSpace_insert sp sz = Inr (res, sp\<lparr>root := n'\<rparr>)"
    by (simp add: BinPackingSpace_insert_def)
  moreover from Cons.IH [of "sp\<lparr>root := n'\<rparr>"] n'(2) obtain results sp' where
    "inserts (sp\<lparr>root := n'\<rparr>) szs = Inr (results, sp')" "both_or_none (root sp')" by auto
  ultimately show ?case by simp
qed

lemma inserts_both_or_none:
  "both_or_none (root sp) \<Longrightarrow> inserts sp szs = Inr (results, sp') \<Longrightarrow> both_or_none (root sp')"
  using inserts_total [of sp szs] by auto

lemma both_or_none_space_new [simp]: "both_or_none (root (BinPackingSpace_new S))"
  by (simp add: BinPackingSpace_new_def)

text \<open>
  C7. Let all requested sizes meet the precondition of insert (non-negative width and
  height). After any sequence of insert calls on a fresh space, no call has stopped at the
  assertion, and a further insert returns normally: either a placement or none.
  It returns none exactly when the tree has no room for the size in the sense of the spec (a
  leaf already taken, a leaf smaller than the requested size in either dimension, or an
  internal node both of whose children have no room), and then it leaves the space as it was.
\<close>

theorem insert_fails_exactly:
  assumes "\<forall>sz \<in> set szs. nonneg sz" and "nonneg sz"
  shows "\<exists>results sp. inserts (BinPackingSpace_new S) szs = Inr (results, sp)
     \<and> (\<exists>res sp'. BinPackingSpace_insert sp sz = Inr (res, sp')
           \<and> (res = None) = no_room (root sp) sz
           \<and> (res = None \<longrightarrow> sp' = sp))"
proof -
  obtain results sp where run: "inserts (BinPackingSpace_new S) szs = Inr (results, sp)"
    and wf: "both_or_none (root sp)"
    using inserts_total [of "BinPackingSpace_new S" szs] by auto
  obtain res n' where n': "Node_insert (root sp) sz = Inr (res, n')"
    using insert_total [OF wf] by blast
  have "(res = None) = no_room (root sp) sz" using wf n' by (rule insert_fails_iff)
  moreover have "res = None \<longrightarrow> sp\<lparr>root := n'\<rparr> = sp" using n' fail_unchanged by auto
  moreover have "BinPackingSpace_insert sp sz = Inr (res, sp\<lparr>root := n'\<rparr>)"
    using n' by (simp add: BinPackingSpace_insert_def)
  ultimately show ?thesis using run by blast
qed

theorem insert_fails_exactly_witness:
  "nonneg (mkSize 4 10) \<and> nonneg (mkSize 7 1)
   \<and> inserts (BinPackingSpace_new (mkSize 10 10)) [mkSize 4 10]
     = Inr ([Some (mkRect 0 0 4 10)],
            \<lparr>root = Node (Some (Node None None (mkRect 0 0 4 10) True))
                          (Some (Node None None (mkRect 4 0 6 10) False))
                          (mkRect 0 0 10 10) False\<rparr>)
   \<and> no_room (Node (Some (Node None None (mkRect 0 0 4 10) True))
                    (Some (Node None None (mkRect 4 0 6 10) False))
                    (mkRect 0 0 10 10) False) (mkSize 7 1)
   \<and> BinPackingSpace_insert
         \<lparr>root = Node (Some (Node None None (mkRect 0 0 4 10) True))
                       (Some (Node None None (mkRect 4 0 6 10) False))
                       (mkRect 0 0 10 10) False\<rparr> (mkSize 7 1)
       = Inr (None, \<lparr>root = Node (Some (Node None None (mkRect 0 0 4 10) True))
                                 (Some (Node None None (mkRect 4 0 6 10) False))
                                 (mkRect 0 0 10 10) False\<rparr>)"
proof -
  let ?sp = "\<lparr>root = Node (Some (Node None None (mkRect 0 0 4 10) True))
                          (Some (Node None None (mkRect 4 0 6 10) False))
                          (mkRect 0 0 10 10) False\<rparr>"
  have run: "inserts (BinPackingSpace_new (mkSize 10 10)) [mkSize 4 10]
               = Inr ([Some (mkRect 0 0 4 10)], ?sp)"
    by (simp add: eval_simps)
  have nr: "no_room (root ?sp) (mkSize 7 1)" by (simp add: mkSize_def mkRect_def)
  have nn: "\<forall>sz \<in> set [mkSize 4 10]. nonneg sz" "nonneg (mkSize 7 1)"
    by (simp_all add: nonneg_def mkSize_def)
  from insert_fails_exactly [OF nn, of "mkSize 10 10"] run nr
  have "BinPackingSpace_insert ?sp (mkSize 7 1) = Inr (None, ?sp)" by auto
  with run nr nn show ?thesis by simp
qed



section \<open>Placements stay apart and inside the surface\<close>

lemma taken_within:
  "partitioned n \<Longrightarrow> r \<in> set (taken_rects n) \<Longrightarrow> within r (bounds n)"
proof (induction n arbitrary: r rule: partitioned.induct)
  case (1 c0 c1 b tk)
  show ?case
  proof (cases c0)
    case None
    with 1(3,4) show ?thesis by (auto simp: within_refl split: if_splits)
  next
    case (Some n0)
    with 1(3) obtain n1 where c1: "c1 = Some n1" and t: "tiles b (bounds n0) (bounds n1)"
      and p0: "partitioned n0" and p1: "partitioned n1"
      by (auto split: option.splits)
    from 1(4) Some c1 have "r \<in> set (taken_rects n0) \<or> r \<in> set (taken_rects n1)" by simp
    then show ?thesis
    proof
      assume "r \<in> set (taken_rects n0)"
      then have "within r (bounds n0)" using 1(1) [OF Some c1 p0] by simp
      then show ?thesis using tiles_within [OF t] within_trans by auto
    next
      assume "r \<in> set (taken_rects n1)"
      then have "within r (bounds n1)" using 1(2) [OF Some c1 p1] by simp
      then show ?thesis using tiles_within [OF t] within_trans by auto
    qed
  qed
qed

text \<open>
  One call on a partitioned tree: the tree stays partitioned, a returned placement becomes a
  taken leaf, lies inside the bounds of the node and shares no cell with an earlier one.
\<close>

lemma insert_placement:
  "partitioned n \<Longrightarrow> nonneg sz \<Longrightarrow> Node_insert n sz = Inr (res, n') \<Longrightarrow>
     partitioned n'
     \<and> set (taken_rects n') = set (taken_rects n) \<union> set_option res
     \<and> (\<forall>r. res = Some r \<longrightarrow> within r (bounds n)
            \<and> (\<forall>r0 \<in> set (taken_rects n). pts r \<inter> pts r0 = {}))"
proof (induction n sz arbitrary: res n' rule: Node_insert_induct)
  case (leaf c1 b tk sz)
  from leaf(2) have c1: "c1 = None" by simp
  from leaf(4) show ?case
  proof (cases rule: Node_insert_leaf_cases)
    case taken
    with leaf(2) show ?thesis by simp
  next
    case small
    with leaf(2) show ?thesis by simp
  next
    case exact
    with leaf(2,3) show ?thesis by (simp add: within_refl)
  next
    case (split n0')
    let ?b0 = "fst (split_bounds b sz)" and ?b1 = "snd (split_bounds b sz)"
    have t: "tiles b ?b0 ?b1" using leaf(3) split(2) by (rule split_tiles)
    from leaf(1) [OF split(1,2,3) _ leaf(3) split(4)]
    have IH: "partitioned n0'" "set (taken_rects n0') = set_option res"
      "\<forall>r. res = Some r \<longrightarrow> within r ?b0" by simp_all
    have b0: "bounds n0' = ?b0" using insert_bounds [OF split(4)] by simp
    have "\<forall>r. res = Some r \<longrightarrow> within r b"
      using IH(3) tiles_within [OF t] within_trans by blast
    with IH t b0 split(1,5) show ?thesis by simp
  qed
next
  case (internal n0 c1 b tk sz)
  from internal(3) obtain m1 where c1: "c1 = Some m1" and t: "tiles b (bounds n0) (bounds m1)"
    and p0: "partitioned n0" and p1: "partitioned m1"
    by (auto split: option.splits)
  from internal(5) show ?case
  proof (cases rule: Node_insert_internal_cases)
    case (first r n0')
    from internal(1) [OF p0 internal(4) first(1)]
    have IH: "partitioned n0'" "set (taken_rects n0') = set (taken_rects n0) \<union> {r}"
      "within r (bounds n0)" "\<forall>r0 \<in> set (taken_rects n0). pts r \<inter> pts r0 = {}" by simp_all
    have b0: "bounds n0' = bounds n0" by (rule insert_bounds [OF first(1)])
    have "pts r \<inter> pts r0 = {}" if "r0 \<in> set (taken_rects m1)" for r0
    proof -
      have "pts r0 \<subseteq> pts (bounds m1)" using taken_within [OF p1 that] by (rule within_pts)
      moreover have "pts r \<subseteq> pts (bounds n0)" using IH(3) by (rule within_pts)
      ultimately show ?thesis using tiles_disjoint [OF t] by blast
    qed
    moreover have "within r b" using IH(3) tiles_within [OF t] within_trans by blast
    ultimately show ?thesis using IH first(2,3) c1 t p1 b0 by auto
  next
    case (second n0' n1 n1')
    have n0': "n0' = n0" using fail_unchanged [OF second(1)] .
    have m1: "m1 = n1" using c1 second(2) by simp
    from internal(2) [OF second(2,1) p1 [unfolded m1] internal(4) second(3)]
    have IH: "partitioned n1'" "set (taken_rects n1') = set (taken_rects n1) \<union> set_option res"
      "\<forall>r. res = Some r \<longrightarrow> within r (bounds n1) \<and> (\<forall>r0 \<in> set (taken_rects n1). pts r \<inter> pts r0 = {})"
      by simp_all
    have b1: "bounds n1' = bounds n1" by (rule insert_bounds [OF second(3)])
    have d0: "pts r \<inter> pts r0 = {}" if "res = Some r" "r0 \<in> set (taken_rects n0)" for r r0
    proof -
      have "pts r0 \<subseteq> pts (bounds n0)" using taken_within [OF p0 that(2)] by (rule within_pts)
      moreover have "pts r \<subseteq> pts (bounds n1)" using IH(3) that(1) within_pts by blast
      ultimately show ?thesis using tiles_disjoint [OF t] m1 by blast
    qed
    have w: "within r b" if "res = Some r" for r
      using that IH(3) tiles_within [OF t] within_trans m1 by blast
    have P: "partitioned n'" using IH(1) second(4) t p0 b1 m1 n0' by simp
    have S: "set (taken_rects n') = set (taken_rects (Node (Some n0) c1 b tk)) \<union> set_option res"
      using IH(2) second(2,4) n0' by auto
    have D: "pts r \<inter> pts r0 = {}"
      if "res = Some r" "r0 \<in> set (taken_rects (Node (Some n0) c1 b tk))" for r r0
    proof -
      from that(2) second(2) have "r0 \<in> set (taken_rects n0) \<or> r0 \<in> set (taken_rects n1)" by simp
      then show ?thesis using d0 [OF that(1)] IH(3) that(1) by blast
    qed
    show ?thesis using P S D w by simp
  qed
qed

text \<open>The same along a run of calls.\<close>

lemma inserts_invariant:
  "partitioned (root sp) \<Longrightarrow> \<forall>sz \<in> set szs. nonneg sz \<Longrightarrow> inserts sp szs = Inr (results, sp') \<Longrightarrow>
     partitioned (root sp') \<and> bounds (root sp') = bounds (root sp)
     \<and> set (taken_rects (root sp)) \<subseteq> set (taken_rects (root sp'))
     \<and> (\<forall>r. Some r \<in> set results \<longrightarrow>
            within r (bounds (root sp)) \<and> r \<in> set (taken_rects (root sp'))
            \<and> (\<forall>r0 \<in> set (taken_rects (root sp)). pts r \<inter> pts r0 = {}))
     \<and> (\<forall>i j r1 r2. i < j \<and> j < length results \<and> results ! i = Some r1 \<and> results ! j = Some r2
            \<longrightarrow> pts r1 \<inter> pts r2 = {})"
proof (induction szs arbitrary: sp results)
  case Nil
  then show ?case by simp
next
  case (Cons sz szs)
  from Cons.prems(3) obtain result sp1 rest where
    first: "BinPackingSpace_insert sp sz = Inr (result, sp1)"
    and rest: "inserts sp1 szs = Inr (rest, sp')" and results: "results = result # rest"
    by (rule inserts_Cons_cases)
  from first obtain n1 where n1: "Node_insert (root sp) sz = Inr (result, n1)"
    and sp1: "sp1 = sp\<lparr>root := n1\<rparr>" by (rule space_insert_cases)
  have sz: "nonneg sz" using Cons.prems(2) by simp
  from insert_placement [OF Cons.prems(1) sz n1]
  have step: "partitioned n1" "set (taken_rects n1) = set (taken_rects (root sp)) \<union> set_option result"
    "\<forall>r. result = Some r \<longrightarrow> within r (bounds (root sp))
        \<and> (\<forall>r0 \<in> set (taken_rects (root sp)). pts r \<inter> pts r0 = {})" by simp_all
  have b1: "bounds n1 = bounds (root sp)" by (rule insert_bounds [OF n1])
  have p1: "partitioned (root sp1)" using step(1) sp1 by simp
  from Cons.IH [OF p1 _ rest] Cons.prems(2)
  have IH: "partitioned (root sp')" "bounds (root sp') = bounds (root sp1)"
    "set (taken_rects (root sp1)) \<subseteq> set (taken_rects (root sp'))"
    "\<forall>r. Some r \<in> set rest \<longrightarrow>
        within r (bounds (root sp1)) \<and> r \<in> set (taken_rects (root sp'))
        \<and> (\<forall>r0 \<in> set (taken_rects (root sp1)). pts r \<inter> pts r0 = {})"
    "\<forall>i j r1 r2. i < j \<and> j < length rest \<and> rest ! i = Some r1 \<and> rest ! j = Some r2
        \<longrightarrow> pts r1 \<inter> pts r2 = {}" by simp_all
  have root1: "root sp1 = n1" using sp1 by simp
  have A: "bounds (root sp') = bounds (root sp)" using IH(2) b1 root1 by simp
  have B: "set (taken_rects (root sp)) \<subseteq> set (taken_rects (root sp'))"
    using IH(3) step(2) root1 by auto
  have C: "within r (bounds (root sp)) \<and> r \<in> set (taken_rects (root sp'))
            \<and> (\<forall>r0 \<in> set (taken_rects (root sp)). pts r \<inter> pts r0 = {})"
    if "Some r \<in> set results" for r
  proof -
    from that results have "result = Some r \<or> Some r \<in> set rest" by auto
    then show ?thesis
    proof
      assume "result = Some r"
      then show ?thesis using step(2,3) IH(3) root1 by auto
    next
      assume "Some r \<in> set rest"
      then show ?thesis using IH(4) step(2) root1 b1 by auto
    qed
  qed
  have D: "pts r1 \<inter> pts r2 = {}"
    if "i < j" "j < length results" "results ! i = Some r1" "results ! j = Some r2" for i j r1 r2
  proof (cases i)
    case 0
    with that results obtain j' where j': "j = Suc j'" "j' < length rest" "rest ! j' = Some r2"
      by (cases j) auto
    then have "Some r2 \<in> set rest" by (metis nth_mem)
    moreover have "r1 \<in> set (taken_rects (root sp1))" using 0 that(3) results step(2) root1 by simp
    ultimately have "pts r2 \<inter> pts r1 = {}" using IH(4) by blast
    then show ?thesis by blast
  next
    case (Suc i')
    with that results obtain j' where j': "j = Suc j'" "i' < j'" "j' < length rest"
      "rest ! i' = Some r1" "rest ! j' = Some r2"
      by (cases j) auto
    then show ?thesis using IH(5) by blast
  qed
  show ?case using IH(1) A B C D by blast
qed

lemma partitioned_space_new [simp]: "partitioned (root (BinPackingSpace_new S))"
  by (simp add: BinPackingSpace_new_def)

lemma bounds_space_new [simp]:
  "bounds (root (BinPackingSpace_new S)) = \<lparr>origin = \<lparr>xc = 0, yc = 0\<rparr>, size_r = S\<rparr>"
  by (simp add: BinPackingSpace_new_def)

text \<open>Every leaf of a partitioned tree lies inside the bounds of its root.\<close>

lemma leaves_within:
  "partitioned n \<Longrightarrow> childs0 n \<noteq> None \<or> nonneg (size_r (bounds n))
   \<Longrightarrow> l \<in> set (leaves n) \<Longrightarrow> within (fst l) (bounds n)"
proof (induction n arbitrary: l rule: partitioned.induct)
  case (1 c0 c1 b tk)
  show ?case
  proof (cases c0)
    case None
    with 1(4,5) show ?thesis by (simp add: within_refl)
  next
    case (Some n0)
    with 1(3) obtain n1 where c1: "c1 = Some n1" and t: "tiles b (bounds n0) (bounds n1)"
      and p0: "partitioned n0" and p1: "partitioned n1"
      by (auto split: option.splits)
    have w0: "within (bounds n0) b" and w1: "within (bounds n1) b"
      using tiles_within [OF t] by simp_all
    then have nn: "nonneg (size_r (bounds n0))" "nonneg (size_r (bounds n1))"
      by (simp_all add: within_def nonneg_def)
    from 1(5) Some c1 have "l \<in> set (leaves n0) \<or> l \<in> set (leaves n1)" by simp
    then show ?thesis
    proof
      assume "l \<in> set (leaves n0)"
      then have "within (fst l) (bounds n0)" using 1(1) [OF Some c1 p0] nn(1) by simp
      then show ?thesis using w0 within_trans by auto
    next
      assume "l \<in> set (leaves n1)"
      then have "within (fst l) (bounds n1)" using 1(2) [OF Some c1 p1] nn(2) by simp
      then show ?thesis using w1 within_trans by auto
    qed
  qed
qed

lemma leaves_in_surface:
  assumes "nonneg S" and "\<forall>sz \<in> set szs. nonneg sz"
    and "inserts (BinPackingSpace_new S) szs = Inr (results, sp)"
    and "l \<in> set (leaves (root sp))"
  shows "within (fst l) \<lparr>origin = \<lparr>xc = 0, yc = 0\<rparr>, size_r = S\<rparr>"
proof -
  from inserts_invariant [OF partitioned_space_new assms(2,3)]
  have p: "partitioned (root sp)"
    and b: "bounds (root sp) = \<lparr>origin = \<lparr>xc = 0, yc = 0\<rparr>, size_r = S\<rparr>" by simp_all
  have "within (fst l) (bounds (root sp))"
    using p _ assms(4) by (rule leaves_within) (simp add: b assms(1))
  then show ?thesis by (simp add: b)
qed

text \<open>The scenario of the spec: a surface of 10 by 10 filled by 4 by 10 and 6 by 10.\<close>

lemma scenario_run:
  "inserts (BinPackingSpace_new (mkSize 10 10)) [mkSize 4 10, mkSize 6 10, mkSize 1 1]
     = Inr ([Some (mkRect 0 0 4 10), Some (mkRect 4 0 6 10), None],
            \<lparr>root = Node (Some (Node None None (mkRect 0 0 4 10) True))
                          (Some (Node None None (mkRect 4 0 6 10) True))
                          (mkRect 0 0 10 10) False\<rparr>)"
  by (simp add: eval_simps)

lemma scenario_nonneg: "\<forall>sz \<in> set [mkSize 4 10, mkSize 6 10, mkSize 1 1]. nonneg sz"
  by (simp add: nonneg_def mkSize_def)

text \<open>
  C1. Take any surface size and any sequence of insert calls on a fresh space whose requested
  sizes meet the precondition of insert (non-negative width and height). The rectangles
  returned by the successful calls are pairwise disjoint: a placement returned by a later call
  shares no cell with a placement returned by an earlier call.
\<close>

theorem no_overlap:
  assumes "\<forall>sz \<in> set szs. nonneg sz"
    and "inserts (BinPackingSpace_new S) szs = Inr (results, sp)"
    and "i < j" and "j < length results"
    and "results ! i = Some r1" and "results ! j = Some r2"
  shows "pts r1 \<inter> pts r2 = {}"
  using inserts_invariant [OF partitioned_space_new assms(1,2)] assms(3-) by blast

theorem no_overlap_witness:
  "nonneg (mkSize 4 10) \<and> nonneg (mkSize 6 10) \<and> nonneg (mkSize 1 1)
   \<and> (\<exists>sp. inserts (BinPackingSpace_new (mkSize 10 10)) [mkSize 4 10, mkSize 6 10, mkSize 1 1]
             = Inr ([Some (mkRect 0 0 4 10), Some (mkRect 4 0 6 10), None], sp))
   \<and> pts (mkRect 0 0 4 10) \<inter> pts (mkRect 4 0 6 10) = {}"
  using no_overlap [OF scenario_nonneg scenario_run, of 0 1 "mkRect 0 0 4 10" "mkRect 4 0 6 10"]
    scenario_nonneg scenario_run
  by simp

text \<open>
  C2. Under the same precondition every rectangle returned by a successful call lies inside
  the bounds of the space, which are the origin (0, 0) and the size given at construction:
  its edges are inside edge by edge, and so are its cells.
\<close>

theorem containment:
  assumes "\<forall>sz \<in> set szs. nonneg sz"
    and "inserts (BinPackingSpace_new S) szs = Inr (results, sp)"
    and "Some r \<in> set results"
  shows "bounds (root sp) = \<lparr>origin = \<lparr>xc = 0, yc = 0\<rparr>, size_r = S\<rparr>
       \<and> getSize sp = S
       \<and> within r \<lparr>origin = \<lparr>xc = 0, yc = 0\<rparr>, size_r = S\<rparr>
       \<and> pts r \<subseteq> pts \<lparr>origin = \<lparr>xc = 0, yc = 0\<rparr>, size_r = S\<rparr>"
proof -
  from inserts_invariant [OF partitioned_space_new assms(1,2)] assms(3)
  have b: "bounds (root sp) = \<lparr>origin = \<lparr>xc = 0, yc = 0\<rparr>, size_r = S\<rparr>"
    and w: "within r \<lparr>origin = \<lparr>xc = 0, yc = 0\<rparr>, size_r = S\<rparr>" by simp_all
  from b have "getSize sp = S" by (simp add: getSize_def)
  with b w within_pts [OF w] show ?thesis by simp
qed

theorem containment_witness:
  "nonneg (mkSize 4 10) \<and> nonneg (mkSize 6 10) \<and> nonneg (mkSize 1 1)
   \<and> (\<exists>sp. inserts (BinPackingSpace_new (mkSize 10 10)) [mkSize 4 10, mkSize 6 10, mkSize 1 1]
             = Inr ([Some (mkRect 0 0 4 10), Some (mkRect 4 0 6 10), None], sp))
   \<and> within (mkRect 4 0 6 10) (mkRect 0 0 10 10)
   \<and> pts (mkRect 4 0 6 10) \<subseteq> pts (mkRect 0 0 10 10)"
  using containment [OF scenario_nonneg scenario_run, of "mkRect 4 0 6 10"]
    scenario_nonneg scenario_run
  by (simp add: mkRect_def mkSize_def)

lemma node_oversize_fails:
  "partitioned n \<Longrightarrow>
   width (size_r (bounds n)) < width sz \<or> height (size_r (bounds n)) < height sz \<Longrightarrow>
   Node_insert n sz = Inr (None, n)"
proof (induction n rule: partitioned.induct)
  case (1 c0 c1 b tk)
  show ?case
  proof (cases c0)
    case None
    with 1(4) show ?thesis by (simp add: Node_insert_leaf)
  next
    case (Some n0)
    with 1(3) obtain n1 where c1: "c1 = Some n1" and t: "tiles b (bounds n0) (bounds n1)"
      and p0: "partitioned n0" and p1: "partitioned n1"
      by (auto split: option.splits)
    have "width (size_r (bounds n0)) < width sz \<or> height (size_r (bounds n0)) < height sz"
      and "width (size_r (bounds n1)) < width sz \<or> height (size_r (bounds n1)) < height sz"
      using tiles_size_le [OF t] 1(4) by auto
    then have "Node_insert n0 sz = Inr (None, n0)" "Node_insert n1 sz = Inr (None, n1)"
      using 1(1) [OF Some c1 p0] 1(2) [OF Some c1 p1] by simp_all
    then show ?thesis by (simp add: Some c1 Node_insert_internal)
  qed
qed

text \<open>
  C8. After any sequence of insert calls that meet the precondition, on a space of any size,
  an insert of a size wider than the space or higher than the space returns no placement and
  leaves the space as it was.
\<close>

theorem oversize_fails:
  assumes "\<forall>sz \<in> set szs. nonneg sz"
    and "inserts (BinPackingSpace_new S) szs = Inr (results, sp)"
    and "width S < width sz \<or> height S < height sz"
  shows "BinPackingSpace_insert sp sz = Inr (None, sp)"
proof -
  from inserts_invariant [OF partitioned_space_new assms(1,2)]
  have p: "partitioned (root sp)"
    and b: "bounds (root sp) = \<lparr>origin = \<lparr>xc = 0, yc = 0\<rparr>, size_r = S\<rparr>" by simp_all
  have "Node_insert (root sp) sz = Inr (None, root sp)"
    using p assms(3) b by (intro node_oversize_fails) simp_all
  then show ?thesis by (simp add: BinPackingSpace_insert_def)
qed

theorem oversize_fails_witness:
  "nonneg (mkSize 3 3)
   \<and> inserts (BinPackingSpace_new (mkSize 10 10)) [mkSize 3 3]
       = Inr ([Some (mkRect 0 0 3 3)],
              \<lparr>root = Node (Some (Node (Some (Node None None (mkRect 0 0 3 3) True))
                                       (Some (Node None None (mkRect 3 0 7 3) False))
                                       (mkRect 0 0 10 3) False))
                            (Some (Node None None (mkRect 0 3 10 7) False))
                            (mkRect 0 0 10 10) False\<rparr>)
   \<and> width (mkSize 10 10) < width (mkSize 11 1)
   \<and> BinPackingSpace_insert
         \<lparr>root = Node (Some (Node (Some (Node None None (mkRect 0 0 3 3) True))
                                  (Some (Node None None (mkRect 3 0 7 3) False))
                                  (mkRect 0 0 10 3) False))
                       (Some (Node None None (mkRect 0 3 10 7) False))
                       (mkRect 0 0 10 10) False\<rparr> (mkSize 11 1)
       = Inr (None,
              \<lparr>root = Node (Some (Node (Some (Node None None (mkRect 0 0 3 3) True))
                                       (Some (Node None None (mkRect 3 0 7 3) False))
                                       (mkRect 0 0 10 3) False))
                            (Some (Node None None (mkRect 0 3 10 7) False))
                            (mkRect 0 0 10 10) False\<rparr>)"
proof -
  have nn: "\<forall>sz \<in> set [mkSize 3 3]. nonneg sz" by (simp add: nonneg_def mkSize_def)
  have run: "inserts (BinPackingSpace_new (mkSize 10 10)) [mkSize 3 3]
       = Inr ([Some (mkRect 0 0 3 3)],
              \<lparr>root = Node (Some (Node (Some (Node None None (mkRect 0 0 3 3) True))
                                       (Some (Node None None (mkRect 3 0 7 3) False))
                                       (mkRect 0 0 10 3) False))
                            (Some (Node None None (mkRect 0 3 10 7) False))
                            (mkRect 0 0 10 10) False\<rparr>)"
    by (simp add: eval_simps)
  have big: "width (mkSize 10 10) < width (mkSize 11 1)" by (simp add: mkSize_def)
  from oversize_fails [OF nn run, of "mkSize 11 1"] big nn run show ?thesis by simp
qed

section \<open>An exact fit takes a leaf whole\<close>

lemma all_fail:
  "both_or_none n \<Longrightarrow> \<forall>l \<in> set (leaves n). no_fit l sz \<Longrightarrow> Node_insert n sz = Inr (None, n)"
proof (induction n rule: leaves.induct)
  case (1 c0 c1 b tk)
  show ?case
  proof (cases c0)
    case None
    with 1(4) show ?thesis by (auto simp: Node_insert_leaf no_fit_def)
  next
    case (Some n0)
    with 1(3) obtain n1 where c1: "c1 = Some n1" and b0: "both_or_none n0" and b1: "both_or_none n1"
      by (auto split: option.splits)
    have "Node_insert n0 sz = Inr (None, n0)" using 1(1) [OF Some b0] 1(4) Some by simp
    moreover have "Node_insert n1 sz = Inr (None, n1)" using 1(2) [OF Some c1 b1] 1(4) Some c1 by simp
    ultimately show ?thesis by (simp add: Some c1 Node_insert_internal)
  qed
qed

text \<open>
  The first free leaf in visiting order that is large enough, when it has exactly the
  requested size, is returned and marked, and nothing else changes.
\<close>

lemma first_fit_exact:
  "both_or_none n \<Longrightarrow> i < length (leaves n) \<Longrightarrow> leaves n ! i = (b, False)
   \<Longrightarrow> \<forall>j < i. no_fit (leaves n ! j) (size_r b)
   \<Longrightarrow> \<exists>n'. Node_insert n (size_r b) = Inr (Some b, n')
          \<and> leaves n' = (leaves n)[i := (b, True)] \<and> count_nodes n' = count_nodes n"
proof (induction n arbitrary: i rule: leaves.induct)
  case (1 c0 c1 bn tk)
  show ?case
  proof (cases c0)
    case None
    with 1(3,4,5) have "i = 0" "bn = b" "\<not> tk" "c1 = None" by auto
    then show ?thesis using None by (simp add: Node_insert_leaf)
  next
    case (Some n0)
    with 1(3) obtain n1 where c1: "c1 = Some n1" and b0: "both_or_none n0" and b1: "both_or_none n1"
      by (auto split: option.splits)
    have lv: "leaves (Node c0 c1 bn tk) = leaves n0 @ leaves n1" using Some c1 by simp
    have L: "i < length (leaves n0 @ leaves n1)" using 1(4) unfolding lv .
    have I: "(leaves n0 @ leaves n1) ! i = (b, False)" using 1(5) unfolding lv .
    have H: "\<forall>j < i. no_fit ((leaves n0 @ leaves n1) ! j) (size_r b)" using 1(6) unfolding lv .
    show ?thesis
    proof (cases "i < length (leaves n0)")
      case True
      have "leaves n0 ! i = (b, False)" using I True by (simp add: nth_append)
      moreover have "\<forall>j < i. no_fit (leaves n0 ! j) (size_r b)"
        using H True by (simp add: nth_append)
      ultimately obtain n0' where n0': "Node_insert n0 (size_r b) = Inr (Some b, n0')"
        "leaves n0' = (leaves n0)[i := (b, True)]" "count_nodes n0' = count_nodes n0"
        using 1(1) [OF Some b0 True] by blast
      then show ?thesis unfolding lv using True
        by (simp add: Some c1 Node_insert_internal list_update_append)
    next
      case False
      let ?k = "i - length (leaves n0)"
      have k: "?k < length (leaves n1)" using L False by simp
      have "\<forall>l \<in> set (leaves n0). no_fit l (size_r b)"
      proof
        fix l assume "l \<in> set (leaves n0)"
        then obtain j where "j < length (leaves n0)" "l = leaves n0 ! j"
          by (metis in_set_conv_nth)
        moreover from this False have "j < i" by simp
        ultimately show "no_fit l (size_r b)" using H [rule_format, of j] by (simp add: nth_append)
      qed
      then have f0: "Node_insert n0 (size_r b) = Inr (None, n0)" using all_fail [OF b0] by simp
      have "leaves n1 ! ?k = (b, False)" using I False by (simp add: nth_append)
      moreover have "\<forall>j < ?k. no_fit (leaves n1 ! j) (size_r b)"
      proof (intro allI impI)
        fix j assume "j < ?k"
        then have "length (leaves n0) + j < i" by simp
        then have "no_fit ((leaves n0 @ leaves n1) ! (length (leaves n0) + j)) (size_r b)"
          using H by blast
        then show "no_fit (leaves n1 ! j) (size_r b)" by (simp add: nth_append)
      qed
      ultimately obtain n1' where n1': "Node_insert n1 (size_r b) = Inr (Some b, n1')"
        "leaves n1' = (leaves n1)[?k := (b, True)]" "count_nodes n1' = count_nodes n1"
        using 1(2) [OF Some c1 b1 k] by blast
      then show ?thesis unfolding lv using False f0
        by (simp add: Some c1 Node_insert_internal list_update_append)
    qed
  qed
qed

lemma smaller_area_no_fit:
  assumes "nonneg (size_r b)" and "area b' < area b"
  shows "width (size_r b') < width (size_r b) \<or> height (size_r b') < height (size_r b)"
proof (rule ccontr)
  assume "\<not> ?thesis"
  then have "width (size_r b) \<le> width (size_r b')" "height (size_r b) \<le> height (size_r b')"
    by simp_all
  then have "width (size_r b) * height (size_r b) \<le> width (size_r b') * height (size_r b')"
    using assms(1) by (intro mult_mono) (simp_all add: nonneg_def)
  with assms(2) show False by (simp add: area_def)
qed

text \<open>
  C5. In any state a space reaches by insert calls, let leaf number \<open>i\<close> (in visiting order) be
  the largest free leaf: it is free, with bounds \<open>b\<close> of non-negative size, and every other
  free leaf has a strictly smaller area. Inserting exactly the size of \<open>b\<close> returns \<open>b\<close>,
  marks that leaf taken and changes nothing else: the leaves are the same with only the flag
  of leaf \<open>i\<close> set, and the tree has as many nodes as before.
\<close>

theorem exact_fit_non_splitting:
  assumes "inserts (BinPackingSpace_new S) szs = Inr (results, sp)"
    and "i < length (leaves (root sp))" and "leaves (root sp) ! i = (b, False)"
    and "nonneg (size_r b)"
    and "\<forall>j < length (leaves (root sp)).
           j \<noteq> i \<and> \<not> snd (leaves (root sp) ! j) \<longrightarrow> area (fst (leaves (root sp) ! j)) < area b"
  shows "\<exists>sp'. BinPackingSpace_insert sp (size_r b) = Inr (Some b, sp')
          \<and> leaves (root sp') = (leaves (root sp))[i := (b, True)]
          \<and> count_nodes (root sp') = count_nodes (root sp)"
proof -
  have wf: "both_or_none (root sp)"
    using inserts_both_or_none [OF both_or_none_space_new assms(1)] .
  have "\<forall>j < i. no_fit (leaves (root sp) ! j) (size_r b)"
  proof (intro allI impI)
    fix j assume j: "j < i"
    show "no_fit (leaves (root sp) ! j) (size_r b)"
    proof (cases "snd (leaves (root sp) ! j)")
      case True
      then show ?thesis by (simp add: no_fit_def)
    next
      case False
      with j assms(2,5) have "area (fst (leaves (root sp) ! j)) < area b" by simp
      then show ?thesis using smaller_area_no_fit [OF assms(4)] by (simp add: no_fit_def)
    qed
  qed
  then obtain n' where "Node_insert (root sp) (size_r b) = Inr (Some b, n')"
    "leaves n' = (leaves (root sp))[i := (b, True)]" "count_nodes n' = count_nodes (root sp)"
    using first_fit_exact [OF wf assms(2,3)] by blast
  then show ?thesis by (simp add: BinPackingSpace_insert_def)
qed

theorem exact_fit_non_splitting_witness:
  "inserts (BinPackingSpace_new (mkSize 10 10)) [mkSize 3 3]
       = Inr ([Some (mkRect 0 0 3 3)],
              \<lparr>root = Node (Some (Node (Some (Node None None (mkRect 0 0 3 3) True))
                                       (Some (Node None None (mkRect 3 0 7 3) False))
                                       (mkRect 0 0 10 3) False))
                            (Some (Node None None (mkRect 0 3 10 7) False))
                            (mkRect 0 0 10 10) False\<rparr>)
   \<and> BinPackingSpace_insert
         \<lparr>root = Node (Some (Node (Some (Node None None (mkRect 0 0 3 3) True))
                                  (Some (Node None None (mkRect 3 0 7 3) False))
                                  (mkRect 0 0 10 3) False))
                       (Some (Node None None (mkRect 0 3 10 7) False))
                       (mkRect 0 0 10 10) False\<rparr> (mkSize 10 7)
       = Inr (Some (mkRect 0 3 10 7),
              \<lparr>root = Node (Some (Node (Some (Node None None (mkRect 0 0 3 3) True))
                                       (Some (Node None None (mkRect 3 0 7 3) False))
                                       (mkRect 0 0 10 3) False))
                            (Some (Node None None (mkRect 0 3 10 7) True))
                            (mkRect 0 0 10 10) False\<rparr>)"
proof -
  let ?sp = "\<lparr>root = Node (Some (Node (Some (Node None None (mkRect 0 0 3 3) True))
                                       (Some (Node None None (mkRect 3 0 7 3) False))
                                       (mkRect 0 0 10 3) False))
                            (Some (Node None None (mkRect 0 3 10 7) False))
                            (mkRect 0 0 10 10) False\<rparr>"
  have run: "inserts (BinPackingSpace_new (mkSize 10 10)) [mkSize 3 3]
               = Inr ([Some (mkRect 0 0 3 3)], ?sp)"
    by (simp add: eval_simps)
  have lv: "leaves (root ?sp)
              = [(mkRect 0 0 3 3, True), (mkRect 3 0 7 3, False), (mkRect 0 3 10 7, False)]"
    by simp
  have i: "2 < length (leaves (root ?sp))" unfolding lv by simp
  have l: "leaves (root ?sp) ! 2 = (mkRect 0 3 10 7, False)" unfolding lv by simp
  have nn: "nonneg (size_r (mkRect 0 3 10 7))" by (simp add: nonneg_def mkRect_def)
  have big: "\<forall>j < length (leaves (root ?sp)). j \<noteq> 2 \<and> \<not> snd (leaves (root ?sp) ! j)
               \<longrightarrow> area (fst (leaves (root ?sp) ! j)) < area (mkRect 0 3 10 7)"
    unfolding lv by (simp add: less_Suc_eq area_def mkRect_def numeral_3_eq_3)
  have sz: "size_r (mkRect 0 3 10 7) = mkSize 10 7" by (simp add: mkRect_def mkSize_def)
  from exact_fit_non_splitting [OF run i l nn big]
  obtain sp' where "BinPackingSpace_insert ?sp (mkSize 10 7) = Inr (Some (mkRect 0 3 10 7), sp')"
    unfolding sz by blast
  moreover have "BinPackingSpace_insert ?sp (mkSize 10 7)
       = Inr (Some (mkRect 0 3 10 7),
              \<lparr>root = Node (Some (Node (Some (Node None None (mkRect 0 0 3 3) True))
                                       (Some (Node None None (mkRect 3 0 7 3) False))
                                       (mkRect 0 0 10 3) False))
                            (Some (Node None None (mkRect 0 3 10 7) True))
                            (mkRect 0 0 10 10) False\<rparr>)"
    by (simp add: eval_simps)
  ultimately show ?thesis using run by simp
qed

section \<open>Termination and the depth of the recursion\<close>

lemma leaf_depth:
  "childs0 n = None \<Longrightarrow> Node_insert_depth n sz \<le> 1 + mismatch (bounds n) sz"
proof (induction n sz rule: Node_insert_induct)
  case (leaf c1 b tk sz)
  show ?case
  proof (cases "tk \<or> width (size_r b) < width sz \<or> height (size_r b) < height sz \<or> size_r b = sz")
    case True
    then show ?thesis by (auto simp: Node_insert_depth_leaf)
  next
    case False
    then have "Node_insert_depth (Node_new (fst (split_bounds b sz))) sz
                 \<le> 1 + mismatch (fst (split_bounds b sz)) sz"
      using leaf(1) by (simp add: Node_new_def)
    moreover have "mismatch (fst (split_bounds b sz)) sz < mismatch b sz"
      using False split_bounds_fst_mismatch by simp
    ultimately show ?thesis using False by (simp add: Node_insert_depth_leaf)
  qed
next
  case (internal n0 c1 b tk sz)
  then show ?case by simp
qed

lemma depth_le_levels: "Node_insert_depth n sz \<le> levels n + 2"
proof (induction n sz rule: Node_insert_induct)
  case (leaf c1 b tk sz)
  have "Node_insert_depth (Node None c1 b tk) sz \<le> 1 + mismatch b sz"
    using leaf_depth [of "Node None c1 b tk" sz] by simp
  also have "\<dots> \<le> 3" using mismatch_le [of b sz] by simp
  finally show ?case by simp
next
  case (internal n0 c1 b tk sz)
  have d0: "Node_insert_depth n0 sz \<le> levels n0 + 2" by (rule internal(1))
  show ?case
  proof (cases "Node_insert n0 sz")
    case (Inl e)
    then show ?thesis using d0 by (simp add: Node_insert_depth_internal)
  next
    case (Inr p)
    obtain r0 n0' where p: "p = (r0, n0')" by (cases p)
    show ?thesis
    proof (cases r0)
      case (Some r)
      then show ?thesis using d0 Inr p by (simp add: Node_insert_depth_internal)
    next
      case None
      note r0 = None
      show ?thesis
      proof (cases c1)
        case None
        then show ?thesis using d0 Inr p r0 by (simp add: Node_insert_depth_internal)
      next
        case (Some n1)
        have "Node_insert_depth n1 sz \<le> levels n1 + 2"
          using internal(2) [OF Some] Inr p r0 by simp
        then show ?thesis using d0 Inr p r0 Some by (auto simp: Node_insert_depth_internal)
      qed
    qed
  qed
qed

lemma fresh_leaf_levels:
  "childs0 n = None \<Longrightarrow> childs1 n = None \<Longrightarrow> Node_insert n sz = Inr (res, n')
   \<Longrightarrow> levels n' \<le> 1 + mismatch (bounds n) sz"
proof (induction n sz arbitrary: res n' rule: Node_insert_induct)
  case (leaf c1 b tk sz)
  from leaf(3) have c1: "c1 = None" by simp
  from leaf(4) show ?case
  proof (cases rule: Node_insert_leaf_cases)
    case (split n0')
    have "levels n0' \<le> 1 + mismatch (fst (split_bounds b sz)) sz"
      using leaf(1) [OF split(1,2,3) _ _ split(4)] by (simp add: Node_new_def)
    moreover have "mismatch (fst (split_bounds b sz)) sz < mismatch b sz"
      using split(2,3) split_bounds_fst_mismatch by simp
    ultimately show ?thesis using split(5) by (simp add: Node_new_def)
  qed (simp_all add: c1)
next
  case (internal n0 c1 b tk sz)
  then show ?case by simp
qed

lemma levels_insert:
  "Node_insert n sz = Inr (res, n') \<Longrightarrow> levels n' \<le> levels n + 2"
proof (induction n sz arbitrary: res n' rule: Node_insert_induct)
  case (leaf c1 b tk sz)
  from leaf(2) show ?case
  proof (cases rule: Node_insert_leaf_cases)
    case (split n0')
    have "levels n0' \<le> 1 + mismatch (fst (split_bounds b sz)) sz"
      using fresh_leaf_levels [OF _ _ split(4)] by (simp add: Node_new_def)
    moreover have "mismatch (fst (split_bounds b sz)) sz < mismatch b sz"
      using split(2,3) split_bounds_fst_mismatch by simp
    moreover have "mismatch b sz \<le> 2" by (rule mismatch_le)
    ultimately show ?thesis using split(5) by (simp add: Node_new_def)
  qed simp_all
next
  case (internal n0 c1 b tk sz)
  from internal(3) show ?case
  proof (cases rule: Node_insert_internal_cases)
    case (first r n0')
    then show ?thesis using internal(1) [OF first(1)] by (auto split: option.splits)
  next
    case (second n0' n1 n1')
    then show ?thesis
      using internal(1) [OF second(1)] internal(2) [OF second(2,1,3)] by auto
  qed
qed

lemma levels_inserts:
  "inserts sp szs = Inr (results, sp') \<Longrightarrow>
   levels (root sp') \<le> levels (root sp) + 2 * successes results"
proof (induction szs arbitrary: sp results)
  case Nil
  then show ?case by (simp add: successes_def)
next
  case (Cons sz szs)
  from Cons.prems obtain result sp1 rest where
    first: "BinPackingSpace_insert sp sz = Inr (result, sp1)"
    and rest: "inserts sp1 szs = Inr (rest, sp')" and results: "results = result # rest"
    by (rule inserts_Cons_cases)
  from first obtain n1 where n1: "Node_insert (root sp) sz = Inr (result, n1)"
    and sp1: "sp1 = sp\<lparr>root := n1\<rparr>" by (rule space_insert_cases)
  have IH: "levels (root sp') \<le> levels n1 + 2 * successes rest"
    using Cons.IH [OF rest] sp1 by simp
  show ?case
  proof (cases result)
    case None
    with n1 have "n1 = root sp" using fail_unchanged by blast
    with IH None results show ?thesis by (simp add: successes_def)
  next
    case (Some r)
    have "levels n1 \<le> levels (root sp) + 2" by (rule levels_insert [OF n1])
    with IH Some results show ?thesis by (simp add: successes_def)
  qed
qed

text \<open>
  C9, as the spec states it, fails: the depth of the recursion is not bounded by the number
  of prior successful insertions. On a fresh space of 10 by 10, with no prior insertion,
  inserting 1 by 1 splits the root, splits its first child and takes the first grandchild:
  three nested activations. After that one successful insertion, inserting 1 by 0 reaches
  five nested activations.
\<close>

theorem insert_depth_counterexample:
  "inserts (BinPackingSpace_new (mkSize 10 10)) [] = Inr ([], BinPackingSpace_new (mkSize 10 10))
   \<and> successes [] = 0
   \<and> Node_insert_depth (root (BinPackingSpace_new (mkSize 10 10))) (mkSize 1 1) = 3
   \<and> inserts (BinPackingSpace_new (mkSize 10 10)) [mkSize 1 1]
       = Inr ([Some (mkRect 0 0 1 1)],
              \<lparr>root = Node (Some (Node (Some (Node None None (mkRect 0 0 1 1) True))
                                       (Some (Node None None (mkRect 1 0 9 1) False))
                                       (mkRect 0 0 10 1) False))
                            (Some (Node None None (mkRect 0 1 10 9) False))
                            (mkRect 0 0 10 10) False\<rparr>)
   \<and> successes [Some (mkRect 0 0 1 1)] = 1
   \<and> Node_insert_depth
         (Node (Some (Node (Some (Node None None (mkRect 0 0 1 1) True))
                           (Some (Node None None (mkRect 1 0 9 1) False))
                           (mkRect 0 0 10 1) False))
               (Some (Node None None (mkRect 0 1 10 9) False))
               (mkRect 0 0 10 10) False) (mkSize 1 0) = 5"
  by (simp add: eval_simps successes_def)

text \<open>
  C9, amended. Let all requested sizes meet the precondition of insert (non-negative width
  and height). Every call of insert on a space reached by such insert calls terminates: it
  returns a placement or none, and the depth of its recursion is at most \<open>2 * k + 3\<close>, where
  \<open>k\<close> is the number of prior successful insertions into the same space.
\<close>

theorem insert_depth_bound:
  assumes "\<forall>sz \<in> set szs. nonneg sz" and "nonneg sz"
    and "inserts (BinPackingSpace_new S) szs = Inr (results, sp)"
  shows "(\<exists>res sp'. BinPackingSpace_insert sp sz = Inr (res, sp'))
       \<and> Node_insert_depth (root sp) sz \<le> 2 * successes results + 3"
proof -
  have "levels (root (BinPackingSpace_new S)) = 1"
    by (simp add: BinPackingSpace_new_def Node_new_def)
  with levels_inserts [OF assms(3)] have "levels (root sp) \<le> 1 + 2 * successes results" by simp
  with depth_le_levels [of "root sp" sz]
  have "Node_insert_depth (root sp) sz \<le> 2 * successes results + 3" by simp
  moreover have "both_or_none (root sp)"
    using inserts_both_or_none [OF both_or_none_space_new assms(3)] .
  then have "\<exists>res sp'. BinPackingSpace_insert sp sz = Inr (res, sp')"
    using insert_total [of "root sp" sz] by (auto simp: BinPackingSpace_insert_def)
  ultimately show ?thesis by simp
qed

theorem insert_depth_bound_witness:
  "nonneg (mkSize 4 10) \<and> nonneg (mkSize 6 10) \<and> nonneg (mkSize 1 1) \<and> nonneg (mkSize 2 2)
   \<and> (\<exists>sp. inserts (BinPackingSpace_new (mkSize 10 10)) [mkSize 4 10, mkSize 6 10, mkSize 1 1]
            = Inr ([Some (mkRect 0 0 4 10), Some (mkRect 4 0 6 10), None], sp)
         \<and> Node_insert_depth (root sp) (mkSize 2 2) \<le> 7)
   \<and> successes [Some (mkRect 0 0 4 10), Some (mkRect 4 0 6 10), None] = 2"
proof -
  have nn: "nonneg (mkSize 2 2)" by (simp add: nonneg_def mkSize_def)
  from insert_depth_bound [OF scenario_nonneg nn scenario_run] scenario_nonneg nn scenario_run
  show ?thesis by (simp add: successes_def)
qed

section \<open>Outside the precondition\<close>

text \<open>
  The precondition on the requested sizes is needed for the geometric properties. A request
  of negative width makes the second child of a split start to the left of the leaf it comes
  from, so a later placement can reach into an earlier one: here the first and the third
  placement share the cell (4, 0). The numbers of this run are small, so the integers of the
  model are those of the source.
\<close>

lemma negative_request_run:
  "\<exists>sp. inserts (BinPackingSpace_new (mkSize 10 10)) [mkSize 5 10, mkSize (- 1) 10, mkSize 6 10]
     = Inr ([Some (mkRect 0 0 5 10), Some (mkRect 5 0 (- 1) 10), Some (mkRect 4 0 6 10)], sp)"
  by (simp add: eval_simps)

lemma negative_request_overlap:
  "(4, 0) \<in> pts (mkRect 0 0 5 10) \<inter> pts (mkRect 4 0 6 10)"
  by (simp add: pts_def mkRect_def)

end
